theory Spec2Isabelle
  imports Complex_Main "HOL-Library.AList"
begin

section \<open>The object caches of lib/utils.py\<close>

text \<open>
  The development embeds the three caches of \<^verbatim>\<open>lib/utils.py\<close>: \<^verbatim>\<open>FastStore\<close>
  (a store bounded in size that expires its oldest keys), \<^verbatim>\<open>TimeBasedCache\<close> (a
  FastStore whose values carry the time of their last touch) and \<^verbatim>\<open>AgeBasedCache\<close>
  (the same, with a Get that never refreshes the time).

  Conventions of the embedding.
  \<^item> Every method takes the object's state and returns the updated state beside its
    result. A method that can raise returns \<open>error + result\<close>; the state returned with
    an error is the state the object is left in when the exception propagates.
  \<^item> A stored object is a \<open>'v option\<close>: \<open>None\<close> is Python's \<^verbatim>\<open>None\<close>, which the code
    tests for (\<^verbatim>\<open>obj is not None\<close>), \<open>Some v\<close> any other object.
  \<^item> The dictionary \<^verbatim>\<open>_hash\<close> is an association list with distinct keys, in the order
    of insertion; \<^verbatim>\<open>_hash.keys()\<close> (a list, a copy, in Python 2) is \<open>map fst\<close> of it.
  \<^item> The callback \<^verbatim>\<open>_kill_cb\<close> is a function of the host: the field \<open>kill_cb\<close> says
    whether one is configured (whether \<^verbatim>\<open>self._kill_cb\<close> is true), and \<open>killed\<close> logs
    the arguments of its calls, oldest first. A callback that raises or that calls
    back into the store is outside the model.
  \<^item> \<^verbatim>\<open>time.time()\<close> is the parameter \<open>now\<close> of the methods that read the clock; the
    times are of any type with an addition and an order, Python's floats among them (see
    the subsection on the clock).
  \<^item> The lock (\<^verbatim>\<open>Synchronized\<close>) and the housekeeper's thread are not modelled: the
    methods run one after the other.
\<close>

subsection \<open>Exceptions\<close>

datatype error =
    KeyError_key        \<comment> \<open>\<^verbatim>\<open>KeyError(key)\<close>: the key is not in the store\<close>
  | KeyError_Expired    \<comment> \<open>\<^verbatim>\<open>KeyError("Expired")\<close>\<close>
  | IndexError          \<comment> \<open>\<^verbatim>\<open>pop\<close> from an empty list\<close>
  | TypeError           \<comment> \<open>subscripting or unpacking \<^verbatim>\<open>None\<close>\<close>
  | RuntimeError        \<comment> \<open>pickling a store that has a kill callback\<close>

subsection \<open>FastStore\<close>

text \<open>
  \<^verbatim>\<open>
  def __init__(self, max_size=10, kill_cb=None):
    self._age = []
    self._hash = {}
    self._limit = max_size
    self._kill_cb = kill_cb
    self.lock = threading.RLock()
  \<close>
\<close>

record ('k, 'v) FastStore =
  age :: "'k list"
  hash :: "('k \<times> 'v option) list"
  limit :: int
  kill_cb :: bool
  killed :: "'v list"

definition FastStore_init :: "int \<Rightarrow> bool \<Rightarrow> ('k, 'v) FastStore" where
  "FastStore_init max_size cb =
     \<lparr>age = [], hash = [], limit = max_size, kill_cb = cb, killed = []\<rparr>"

text \<open>
  \<^verbatim>\<open>
  def ExpireObject(self, key):
    obj = self._hash.pop(key, None)
    if self._kill_cb and obj is not None:
      self._kill_cb(obj)
    return obj
  \<close>
  The key is taken out of \<^verbatim>\<open>_hash\<close>; \<^verbatim>\<open>_age\<close> is not touched.
\<close>

definition ExpireObject ::
  "'k \<Rightarrow> ('k, 'v, 'z) FastStore_scheme \<Rightarrow> 'v option \<times> ('k, 'v, 'z) FastStore_scheme" where
  "ExpireObject key s =
     (let obj = (case map_of (hash s) key of None \<Rightarrow> None | Some o1 \<Rightarrow> o1);
          s1 = s\<lparr>hash := AList.delete key (hash s)\<rparr>
      in case obj of
           None \<Rightarrow> (None, s1)
         | Some v \<Rightarrow>
             if kill_cb s1 then (Some v, s1\<lparr>killed := killed s1 @ [v]\<rparr>)
             else (Some v, s1))"

text \<open>
  \<^verbatim>\<open>
  def Expire(self):
    while len(self._age) > self._limit:
      x = self._age.pop(0)
      self.ExpireObject(x)
  \<close>
  With a negative limit the loop empties \<^verbatim>\<open>_age\<close> and then pops from the empty list.
\<close>

function Expire ::
  "('k, 'v, 'z) FastStore_scheme \<Rightarrow> (error + unit) \<times> ('k, 'v, 'z) FastStore_scheme" where
  "Expire s =
     (if int (length (age s)) > limit s then
        (case age s of
           [] \<Rightarrow> (Inl IndexError, s)
         | x # rest \<Rightarrow> Expire (snd (ExpireObject x (s\<lparr>age := rest\<rparr>))))
      else (Inr (), s))"
  by pat_completeness auto
termination
  by (relation "measure (\<lambda>s. length (age s))") (auto simp: ExpireObject_def Let_def split: option.splits)

declare Expire.simps [simp del]

text \<open>
  \<^verbatim>\<open>
  def Put(self, key, obj):
    try:
      idx = self._age.index(key)
      self._age.pop(idx)
    except ValueError:
      pass
    self._hash[key] = obj
    self._age.append(key)
    self.Expire()
    return key
  \<close>
\<close>

definition Put ::
  "'k \<Rightarrow> 'v option \<Rightarrow> ('k, 'v, 'z) FastStore_scheme
     \<Rightarrow> (error + 'k) \<times> ('k, 'v, 'z) FastStore_scheme" where
  "Put key obj s =
     (let s1 = (if key \<in> set (age s) then s\<lparr>age := remove1 key (age s)\<rparr> else s);
          s2 = s1\<lparr>hash := AList.update key obj (hash s1)\<rparr>;
          s3 = s2\<lparr>age := age s2 @ [key]\<rparr>
      in case Expire s3 of
           (Inl e, s4) \<Rightarrow> (Inl e, s4)
         | (Inr _, s4) \<Rightarrow> (Inr key, s4))"

text \<open>
  \<^verbatim>\<open>
  def Get(self, key):
    try:
      idx = self._age.index(key)
      self._age.pop(idx)
      self._age.append(key)
    except ValueError:
      raise KeyError(key)
    return self._hash[key]
  \<close>
  The last line raises \<^verbatim>\<open>KeyError(key)\<close> too, when the key is in \<^verbatim>\<open>_age\<close> and not in
  \<^verbatim>\<open>_hash\<close>; the key has been moved by then.
\<close>

definition Get ::
  "'k \<Rightarrow> ('k, 'v, 'z) FastStore_scheme
     \<Rightarrow> (error + 'v option) \<times> ('k, 'v, 'z) FastStore_scheme" where
  "Get key s =
     (if key \<in> set (age s) then
        (let s1 = s\<lparr>age := remove1 key (age s) @ [key]\<rparr>
         in case map_of (hash s1) key of
              None \<Rightarrow> (Inl KeyError_key, s1)
            | Some obj \<Rightarrow> (Inr obj, s1))
      else (Inl KeyError_key, s))"

text \<open>\<^verbatim>\<open>def __contains__(self, obj): return obj in self._hash\<close>\<close>

definition contains :: "'k \<Rightarrow> ('k, 'v, 'z) FastStore_scheme \<Rightarrow> bool" where
  "contains obj s = (map_of (hash s) obj \<noteq> None)"

text \<open>
  \<^verbatim>\<open>
  def ExpireRegEx(self, regex):
    for key in self._hash.keys():
      if re.match(regex, key):
        self.ExpireObject(key)
  \<close>
  The regular expression is the predicate \<open>m\<close> on keys that \<^verbatim>\<open>re.match(regex, _)\<close>
  computes.
\<close>

fun ExpireRegEx_loop ::
  "('k \<Rightarrow> bool) \<Rightarrow> 'k list \<Rightarrow> ('k, 'v, 'z) FastStore_scheme \<Rightarrow> ('k, 'v, 'z) FastStore_scheme" where
  "ExpireRegEx_loop m [] s = s"
| "ExpireRegEx_loop m (key # keys) s =
     ExpireRegEx_loop m keys (if m key then snd (ExpireObject key s) else s)"

definition ExpireRegEx ::
  "('k \<Rightarrow> bool) \<Rightarrow> ('k, 'v, 'z) FastStore_scheme \<Rightarrow> ('k, 'v, 'z) FastStore_scheme" where
  "ExpireRegEx m s = ExpireRegEx_loop m (map fst (hash s)) s"

text \<open>
  \<^verbatim>\<open>
  def Flush(self):
    while self._age:
      x = self._age.pop(0)
      self.ExpireObject(x)
    self._hash = {}
  \<close>
\<close>

function Flush_loop :: "('k, 'v, 'z) FastStore_scheme \<Rightarrow> ('k, 'v, 'z) FastStore_scheme" where
  "Flush_loop s =
     (case age s of
        [] \<Rightarrow> s
      | x # rest \<Rightarrow> Flush_loop (snd (ExpireObject x (s\<lparr>age := rest\<rparr>))))"
  by pat_completeness auto
termination
  by (relation "measure (\<lambda>s. length (age s))") (auto simp: ExpireObject_def Let_def split: option.splits)

declare Flush_loop.simps [simp del]

definition Flush :: "('k, 'v, 'z) FastStore_scheme \<Rightarrow> ('k, 'v, 'z) FastStore_scheme" where
  "Flush s = (Flush_loop s)\<lparr>hash := []\<rparr>"

text \<open>
  \<^verbatim>\<open>
  def __getstate__(self):
    if self._kill_cb:
      raise RuntimeError("Unable to pickle a store with a kill callback.")
    self.Flush()
    return dict(max_size=self._limit)

  def __setstate__(self, state):
    self.__init__(max_size=state["max_size"])
  \<close>
  The pickled dictionary is a record with the one field \<open>max_size\<close>.
\<close>

record FastStore_state =
  max_size :: int



subsection \<open>The clock\<close>

text \<open>
  The caches read the clock with \<^verbatim>\<open>time.time()\<close> and test
  \<^verbatim>\<open>timestamp + self.max_age < now\<close>. The methods below are written for any type \<open>'t\<close> of
  times that has an addition and an order, of which nothing is assumed: what is proved of
  them holds for Python's integers, which add exactly, and for its floats, whose sums are
  rounded. The time is the parameter \<open>now\<close> of the methods that read the clock.

  The floats are modelled here, for the examples and counterexamples that depend on the
  rounding. \<open>Double m e\<close> is the finite double of the value \<open>m * 2 ^ e\<close>, as
  \<^verbatim>\<open>float.hex\<close> and \<^verbatim>\<open>float.as_integer_ratio\<close> show it; it is a double when \<open>is_double\<close>
  holds. The sum of two doubles is their exact sum rounded to 53 significant bits, to the
  nearest, ties to even (IEEE 754 binary64 in its default rounding, Python's float
  addition); a comparison is exact. Infinities, NaN and the overflow of a sum beyond the
  largest double are left out: no time of the examples comes near them.
\<close>

datatype double = Double int int

definition is_double :: "double \<Rightarrow> bool" where
  "is_double x = (case x of Double m e \<Rightarrow> \<bar>m\<bar> < 2 ^ 53 \<and> - 1074 \<le> e \<and> e \<le> 971)"

text \<open>The exact value of a double.\<close>

definition dval :: "double \<Rightarrow> real" where
  "dval x =
     (case x of Double m e \<Rightarrow>
        if 0 \<le> e then of_int m * 2 ^ nat e else of_int m / 2 ^ nat (- e))"

text \<open>The number of bits of a natural number (\<^verbatim>\<open>int.bit_length\<close>).\<close>

fun bit_length :: "nat \<Rightarrow> nat" where
  "bit_length n = (if n = 0 then 0 else Suc (bit_length (n div 2)))"

declare bit_length.simps [simp del]

text \<open>
  The double nearest to \<open>m * 2 ^ e\<close>: with \<open>k\<close> the number of bits of \<open>m\<close> beyond 53,
  \<open>m = q * 2 ^ k + r\<close> is rounded to \<open>q\<close> or to \<open>q + 1\<close>, to the even one when \<open>r\<close> is
  just the half.
\<close>

definition round53 :: "int \<Rightarrow> int \<Rightarrow> double" where
  "round53 m e =
     (if \<bar>m\<bar> < 2 ^ 53 then Double m e
      else let k = bit_length (nat \<bar>m\<bar>) - 53;
               q = m div 2 ^ k;
               r = m mod 2 ^ k;
               h = 2 ^ (k - 1)
           in Double (if h < r \<or> (r = h \<and> odd q) then q + 1 else q) (e + int k))"

instantiation double :: "{plus, ord}"
begin

definition plus_double :: "double \<Rightarrow> double \<Rightarrow> double" where
  "plus_double x y =
     (case (x, y) of (Double m1 e1, Double m2 e2) \<Rightarrow>
        let e = min e1 e2
        in round53 (m1 * 2 ^ nat (e1 - e) + m2 * 2 ^ nat (e2 - e)) e)"

definition less_double :: "double \<Rightarrow> double \<Rightarrow> bool" where
  "less_double x y =
     (case (x, y) of (Double m1 e1, Double m2 e2) \<Rightarrow>
        let e = min e1 e2
        in m1 * 2 ^ nat (e1 - e) < m2 * 2 ^ nat (e2 - e))"

definition less_eq_double :: "double \<Rightarrow> double \<Rightarrow> bool" where
  "less_eq_double x y =
     (case (x, y) of (Double m1 e1, Double m2 e2) \<Rightarrow>
        let e = min e1 e2
        in m1 * 2 ^ nat (e1 - e) \<le> m2 * 2 ^ nat (e2 - e))"

instance ..

end

subsection \<open>TimeBasedCache and AgeBasedCache\<close>

text \<open>
  \<^verbatim>\<open>
  class TimeBasedCache(FastStore):
    def __init__(self, max_size=10, max_age=600, kill_cb=None):
      super(TimeBasedCache, self).__init__(max_size, kill_cb)
      self.max_age = max_age
      ...
  \<close>
  The class extends FastStore by the field \<^verbatim>\<open>max_age\<close>; what it stores under a key is
  the list \<^verbatim>\<open>[timestamp, obj]\<close>, a pair here.
\<close>

record ('k, 'a, 't) TimeBasedCache = "('k, 't \<times> 'a) FastStore" +
  max_age :: 't

definition TimeBasedCache_init :: "int \<Rightarrow> 't \<Rightarrow> bool \<Rightarrow> ('k, 'a, 't) TimeBasedCache" where
  "TimeBasedCache_init max_size_arg max_age_arg cb =
     \<lparr>age = [], hash = [], limit = max_size_arg, kill_cb = cb, killed = [],
      max_age = max_age_arg\<rparr>"

text \<open>
  \<^verbatim>\<open>
  def HouseKeeper():
    if not time:
      return
    now = time.time()
    for key in self._age:
      try:
        timestamp, _ = self._hash[key]
        if timestamp + self.max_age < now:
          self.ExpireObject(key)
      except KeyError:
        pass
  \<close>
  One run of the housekeeper at the time \<open>now\<close>, the module \<^verbatim>\<open>time\<close> being there (it is
  gone only when the interpreter shuts down). \<^verbatim>\<open>ExpireObject\<close> leaves \<^verbatim>\<open>_age\<close> as it
  is, so the loop runs over the keys \<^verbatim>\<open>_age\<close> has when it starts. A key of \<^verbatim>\<open>_age\<close>
  missing in \<^verbatim>\<open>_hash\<close> is skipped (the \<^verbatim>\<open>KeyError\<close> is caught); unpacking a stored
  \<^verbatim>\<open>None\<close> raises \<^verbatim>\<open>TypeError\<close>, which is not caught.
\<close>

fun HouseKeeper_loop ::
  "'t::{plus,ord} \<Rightarrow> 'k list \<Rightarrow> ('k, 'a, 't, 'z) TimeBasedCache_scheme
     \<Rightarrow> (error + unit) \<times> ('k, 'a, 't, 'z) TimeBasedCache_scheme" where
  "HouseKeeper_loop now [] s = (Inr (), s)"
| "HouseKeeper_loop now (key # keys) s =
     (case map_of (hash s) key of
        None \<Rightarrow> HouseKeeper_loop now keys s
      | Some None \<Rightarrow> (Inl TypeError, s)
      | Some (Some (timestamp, _)) \<Rightarrow>
          if timestamp + max_age s < now
          then HouseKeeper_loop now keys (snd (ExpireObject key s))
          else HouseKeeper_loop now keys s)"

definition HouseKeeper ::
  "'t::{plus,ord} \<Rightarrow> ('k, 'a, 't, 'z) TimeBasedCache_scheme
     \<Rightarrow> (error + unit) \<times> ('k, 'a, 't, 'z) TimeBasedCache_scheme" where
  "HouseKeeper now s = HouseKeeper_loop now (age s) s"

text \<open>
  \<^verbatim>\<open>
  def Get(self, key):
    now = time.time()
    stored = super(TimeBasedCache, self).Get(key)
    if stored[0] + self.max_age < now:
      raise KeyError("Expired")
    # This updates the timestamp in place to keep the object alive
    stored[0] = now
    return stored[1]
  \<close>
  \<^verbatim>\<open>stored\<close> is the list object held in \<^verbatim>\<open>_hash\<close>, so the assignment to \<^verbatim>\<open>stored[0]\<close>
  changes the entry of \<^verbatim>\<open>key\<close> in \<^verbatim>\<open>_hash\<close>, and no other entry: \<^verbatim>\<open>Put\<close> makes a new
  list for each entry.
\<close>

definition TimeBasedCache_Get ::
  "'t::{plus,ord} \<Rightarrow> 'k \<Rightarrow> ('k, 'a, 't, 'z) TimeBasedCache_scheme
     \<Rightarrow> (error + 'a) \<times> ('k, 'a, 't, 'z) TimeBasedCache_scheme" where
  "TimeBasedCache_Get now key s =
     (case Get key s of
        (Inl e, s1) \<Rightarrow> (Inl e, s1)
      | (Inr None, s1) \<Rightarrow> (Inl TypeError, s1)
      | (Inr (Some (timestamp, obj)), s1) \<Rightarrow>
          if timestamp + max_age s1 < now then (Inl KeyError_Expired, s1)
          else (Inr obj, s1\<lparr>hash := AList.update key (Some (now, obj)) (hash s1)\<rparr>))"

text \<open>
  \<^verbatim>\<open>
  def Put(self, key, obj):
    super(TimeBasedCache, self).Put(key, [time.time(), obj])
  \<close>
  The method has no \<^verbatim>\<open>return\<close>: its value is \<^verbatim>\<open>None\<close>, written \<open>None\<close> below, where
  \<open>Some k\<close> would be a key returned.
\<close>

definition TimeBasedCache_Put ::
  "'t \<Rightarrow> 'k \<Rightarrow> 'a \<Rightarrow> ('k, 'a, 't, 'z) TimeBasedCache_scheme
     \<Rightarrow> (error + 'k option) \<times> ('k, 'a, 't, 'z) TimeBasedCache_scheme" where
  "TimeBasedCache_Put now key obj s =
     (case Put key (Some (now, obj)) s of
        (Inl e, s1) \<Rightarrow> (Inl e, s1)
      | (Inr _, s1) \<Rightarrow> (Inr None, s1))"




text \<open>
  \<^verbatim>\<open>
  class AgeBasedCache(TimeBasedCache):
    def Get(self, key):
      now = time.time()
      stored = FastStore.Get(self, key)
      if stored[0] + self.max_age < now:
        raise KeyError("Expired")
      return stored[1]
  \<close>
  Every other method of AgeBasedCache is TimeBasedCache's.
\<close>

definition AgeBasedCache_Get ::
  "'t::{plus,ord} \<Rightarrow> 'k \<Rightarrow> ('k, 'a, 't, 'z) TimeBasedCache_scheme
     \<Rightarrow> (error + 'a) \<times> ('k, 'a, 't, 'z) TimeBasedCache_scheme" where
  "AgeBasedCache_Get now key s =
     (case Get key s of
        (Inl e, s1) \<Rightarrow> (Inl e, s1)
      | (Inr None, s1) \<Rightarrow> (Inl TypeError, s1)
      | (Inr (Some (timestamp, obj)), s1) \<Rightarrow>
          if timestamp + max_age s1 < now then (Inl KeyError_Expired, s1)
          else (Inr obj, s1))"

section \<open>Invariants and example stores\<close>

abbreviation keys_of :: "('k, 'v, 'z) FastStore_scheme \<Rightarrow> 'k list" where
  "keys_of s \<equiv> map fst (hash s)"

text \<open>
  What every method keeps true of the two structures: each key of \<^verbatim>\<open>_hash\<close> is in
  \<^verbatim>\<open>_age\<close>, \<^verbatim>\<open>_age\<close> holds no key twice, and (being a dictionary) neither does
  \<^verbatim>\<open>_hash\<close>.
\<close>

definition store_inv :: "('k, 'v, 'z) FastStore_scheme \<Rightarrow> bool" where
  "store_inv s =
     (set (keys_of s) \<subseteq> set (age s) \<and> distinct (age s) \<and> distinct (keys_of s))"

text \<open>The stronger property: \<^verbatim>\<open>_age\<close> and \<^verbatim>\<open>_hash\<close> have the same keys.\<close>

definition no_orphans :: "('k, 'v, 'z) FastStore_scheme \<Rightarrow> bool" where
  "no_orphans s = (set (age s) = set (keys_of s))"

text \<open>
  A TimeBasedCache (or AgeBasedCache) with \<^verbatim>\<open>max_size = 10\<close>, \<^verbatim>\<open>max_age = 10\<close> and no
  callback, after \<^verbatim>\<open>Put("k", 7)\<close> at the time 0.
\<close>

definition cache_k :: "(string, nat, int) TimeBasedCache" where
  "cache_k = snd (TimeBasedCache_Put 0 ''k'' 7 (TimeBasedCache_init 10 10 False))"

text \<open>Reading a key of an AgeBasedCache again and again, at the given times.\<close>

fun AgeBasedCache_reads ::
  "'t::{plus,ord} list \<Rightarrow> 'k \<Rightarrow> ('k, 'a, 't, 'z) TimeBasedCache_scheme \<Rightarrow> ('k, 'a, 't, 'z) TimeBasedCache_scheme" where
  "AgeBasedCache_reads [] key s = s"
| "AgeBasedCache_reads (t # moments) key s =
     AgeBasedCache_reads moments key (snd (AgeBasedCache_Get t key s))"

text \<open>
  What the callback is given when the keys \<open>ks\<close> are expired one after the other from
  the dictionary \<open>h\<close>: the objects found under them, those that are not \<^verbatim>\<open>None\<close>.
\<close>

fun expired_objects :: "'k list \<Rightarrow> ('k \<times> 'v option) list \<Rightarrow> 'v list" where
  "expired_objects [] h = []"
| "expired_objects (k # ks) h =
     (case map_of h k of Some (Some v) \<Rightarrow> [v] | _ \<Rightarrow> []) @ expired_objects ks (AList.delete k h)"

text \<open>A sequence of \<^verbatim>\<open>Put\<close> calls, on a FastStore and on a TimeBasedCache (each with its time).\<close>

fun Puts ::
  "('k \<times> 'v option) list \<Rightarrow> ('k, 'v, 'z) FastStore_scheme \<Rightarrow> ('k, 'v, 'z) FastStore_scheme" where
  "Puts [] s = s"
| "Puts ((key, obj) # ps) s = Puts ps (snd (Put key obj s))"

fun TimeBasedCache_Puts ::
  "('t \<times> 'k \<times> 'a) list \<Rightarrow> ('k, 'a, 't, 'z) TimeBasedCache_scheme
     \<Rightarrow> ('k, 'a, 't, 'z) TimeBasedCache_scheme" where
  "TimeBasedCache_Puts [] s = s"
| "TimeBasedCache_Puts ((now, key, obj) # ps) s =
     TimeBasedCache_Puts ps (snd (TimeBasedCache_Put now key obj s))"

text \<open>
  A FastStore with \<^verbatim>\<open>max_size = 2\<close> and no callback, after \<^verbatim>\<open>Put("a", 1)\<close> and
  \<^verbatim>\<open>Put("b", 2)\<close>.
\<close>

definition store_ab :: "(string, nat) FastStore" where
  "store_ab = Puts [(''a'', Some 1), (''b'', Some 2)] (FastStore_init 2 False)"

text \<open>
  A FastStore with \<^verbatim>\<open>max_size = 2\<close> and a callback, after \<^verbatim>\<open>Put("a", 1)\<close>,
  \<^verbatim>\<open>Put("b", 2)\<close> and \<^verbatim>\<open>ExpireObject("b")\<close>.
\<close>

definition store_a_stale_b :: "(string, nat) FastStore" where
  "store_a_stale_b =
     snd (ExpireObject ''b'' (Puts [(''a'', Some 1), (''b'', Some 2)] (FastStore_init 2 True)))"

text \<open>
  What the code takes for expired at the time \<open>now\<close>, for the maximal age \<open>a\<close>: a stored
  \<^verbatim>\<open>[ts, obj]\<close> with \<^verbatim>\<open>ts + a < now\<close>; and a key that holds such an object.
\<close>

definition is_expired :: "'t::{plus,ord} \<Rightarrow> 't \<Rightarrow> ('t \<times> 'a) option \<Rightarrow> bool" where
  "is_expired now a stored = (case stored of None \<Rightarrow> False | Some (ts, _) \<Rightarrow> ts + a < now)"


text \<open>
  A TimeBasedCache with \<^verbatim>\<open>max_size = 10\<close>, \<^verbatim>\<open>max_age = 5\<close> and a callback, after
  \<^verbatim>\<open>Put("a", 1)\<close> at the time 0 and \<^verbatim>\<open>Put("b", 2)\<close> at the time 8.
\<close>

definition cache_ab :: "(string, nat, int) TimeBasedCache" where
  "cache_ab = TimeBasedCache_Puts [(0, ''a'', 1), (8, ''b'', 2)] (TimeBasedCache_init 10 5 True)"

text \<open>
  The times of \<open>cache_k\<close> and \<open>cache_ab\<close> are integers (a float of such a value adds
  and compares as the integer does). The next cache has float times.
\<close>

text \<open>
  The doubles \<^verbatim>\<open>1700000000.0\<close>, \<^verbatim>\<open>0.2\<close> (\<^verbatim>\<open>0x1.999999999999ap-3\<close>) and
  \<^verbatim>\<open>1700000000.2\<close> (\<^verbatim>\<open>0x1.954fc400ccccdp+30\<close>).
\<close>

definition t_put :: double where
  "t_put = Double 1700000000 0"

definition age_02 :: double where
  "age_02 = Double 3602879701896397 (- 54)"

definition t_get :: double where
  "t_get = Double 7130316800838861 (- 22)"

text \<open>
  A TimeBasedCache (or AgeBasedCache) with \<^verbatim>\<open>max_size = 10\<close>, \<^verbatim>\<open>max_age = 0.2\<close> and a
  callback, after \<^verbatim>\<open>Put("k", 7)\<close> at the time \<^verbatim>\<open>1700000000.0\<close>.
\<close>

definition cache_float :: "(string, nat, double) TimeBasedCache" where
  "cache_float = snd (TimeBasedCache_Put t_put ''k'' 7 (TimeBasedCache_init 10 age_02 True))"

section \<open>Basic facts\<close>

subsection \<open>The doubles\<close>

lemma dval_powr: "dval (Double m e) = of_int m * 2 powr (of_int e)"
proof (cases "0 \<le> e")
  case True
  then have "(2::real) powr (of_int e) = 2 ^ nat e"
    by (simp add: powr_realpow [symmetric])
  then show ?thesis using True by (simp add: dval_def)
next
  case False
  then have "(2::real) powr (of_int e) = 1 / 2 ^ nat (- e)"
    by (simp add: powr_realpow [symmetric] powr_minus_divide [symmetric])
  then show ?thesis using False by (simp add: dval_def)
qed

lemma dval_scaled:
  assumes "e \<le> e1"
  shows "of_int (m * 2 ^ nat (e1 - e)) * 2 powr (of_int e) = of_int m * 2 powr (of_int e1 :: real)"
proof -
  have "(2::real) ^ nat (e1 - e) = 2 powr (of_int (e1 - e))"
    using assms by (simp add: powr_realpow [symmetric])
  then have "(2::real) ^ nat (e1 - e) * 2 powr (of_int e) = 2 powr (of_int e1)"
    by (simp add: powr_add [symmetric])
  then show ?thesis by (simp add: mult.assoc)
qed

text \<open>The order of the doubles is the order of their values.\<close>

lemma less_double_dval: "x < y \<longleftrightarrow> dval x < dval y"
proof (cases x, cases y)
  fix m1 e1 m2 e2
  assume x: "x = Double m1 e1" and y: "y = Double m2 e2"
  let ?e = "min e1 e2"
  let ?a = "m1 * 2 ^ nat (e1 - ?e)" and ?b = "m2 * 2 ^ nat (e2 - ?e)"
  have "?a < ?b \<longleftrightarrow> (of_int ?a :: real) < of_int ?b"
    by (simp only: of_int_less_iff)
  also have "\<dots> \<longleftrightarrow> of_int ?a * 2 powr (of_int ?e) < of_int ?b * 2 powr (of_int ?e :: real)"
    by (simp only: mult_less_cancel_right_pos powr_gt_zero)
  also have "\<dots> \<longleftrightarrow> dval x < dval y"
    unfolding x y dval_powr
    by (simp only: dval_scaled [of ?e e1 m1] dval_scaled [of ?e e2 m2] min.cobounded1 min.cobounded2)
  finally show ?thesis by (simp add: x y less_double_def Let_def)
qed

text \<open>A sum that fits into 53 bits is exact.\<close>

lemma dval_round53_exact: "\<bar>m\<bar> < 2 ^ 53 \<Longrightarrow> dval (round53 m e) = of_int m * 2 powr (of_int e)"
  by (simp add: round53_def dval_powr)

text \<open>
  \<^verbatim>\<open>1700000000.0 + 0.2 == 1700000000.2\<close> in doubles, while the exact difference of
  \<^verbatim>\<open>1700000000.2\<close> and \<^verbatim>\<open>1700000000.0\<close> is greater than \<^verbatim>\<open>0.2\<close>.
\<close>

lemma float_inputs: "is_double t_put \<and> is_double age_02 \<and> is_double t_get"
  by (simp add: t_put_def age_02_def t_get_def is_double_def)

lemma float_sum: "t_put + age_02 = t_get"
  by (simp add: t_put_def age_02_def t_get_def plus_double_def round53_def bit_length.simps)

lemma float_not_less: "\<not> t_put + age_02 < t_get"
  unfolding float_sum by (simp add: t_get_def less_double_def)

lemma float_exact_difference: "dval age_02 < dval t_get - dval t_put"
  by (simp add: t_put_def age_02_def t_get_def dval_def)

text \<open>
  Two sums that are rounded, one of them a tie: \<^verbatim>\<open>0.1 + 0.2 == 0.30000000000000004\<close>
  and \<^verbatim>\<open>1e16 + 3.0 == 1.0000000000000004e16\<close>.
\<close>

lemma float_sum_tenths:
  "Double 3602879701896397 (- 55) + Double 3602879701896397 (- 54) =
     Double 5404319552844596 (- 54)"
  by (simp add: plus_double_def round53_def bit_length.simps)

lemma float_sum_large: "Double 10000000000000000 0 + Double 3 0 = Double 5000000000000002 1"
  by (simp add: plus_double_def round53_def bit_length.simps)

subsection \<open>The example stores\<close>

lemma cache_k_eq:
  "cache_k = \<lparr>age = [''k''], hash = [(''k'', Some (0, 7))], limit = 10, kill_cb = False,
               killed = [], max_age = 10\<rparr>"
  by (simp add: cache_k_def TimeBasedCache_init_def TimeBasedCache_Put_def Put_def Expire.simps)

lemma store_inv_cache_k: "store_inv cache_k"
  by (simp add: cache_k_eq store_inv_def)

lemma store_ab_eq:
  "store_ab = \<lparr>age = [''a'', ''b''], hash = [(''a'', Some 1), (''b'', Some 2)], limit = 2,
                kill_cb = False, killed = []\<rparr>"
  by (simp add: store_ab_def FastStore_init_def Put_def Expire.simps)

lemma store_a_stale_b_eq:
  "store_a_stale_b = \<lparr>age = [''a'', ''b''], hash = [(''a'', Some 1)], limit = 2,
                       kill_cb = True, killed = [2]\<rparr>"
  by (simp add: store_a_stale_b_def FastStore_init_def Put_def Expire.simps ExpireObject_def)

lemma cache_ab_eq:
  "cache_ab = \<lparr>age = [''a'', ''b''], hash = [(''a'', Some (0, 1)), (''b'', Some (8, 2))],
                limit = 10, kill_cb = True, killed = [], max_age = 5\<rparr>"
  by (simp add: cache_ab_def TimeBasedCache_init_def TimeBasedCache_Put_def Put_def Expire.simps)

lemma cache_float_eq:
  "cache_float = \<lparr>age = [''k''], hash = [(''k'', Some (t_put, 7))], limit = 10,
                   kill_cb = True, killed = [], max_age = age_02\<rparr>"
  by (simp add: cache_float_def TimeBasedCache_init_def TimeBasedCache_Put_def Put_def
        Expire.simps)

lemma store_inv_cache_float: "store_inv cache_float"
  by (simp add: cache_float_eq store_inv_def)

lemma store_inv_cache_ab: "store_inv cache_ab"
  by (simp add: cache_ab_eq store_inv_def)

lemma age_ExpireObject: "age (snd (ExpireObject key s)) = age s"
  by (simp add: ExpireObject_def Let_def split: option.splits)

lemma hash_ExpireObject: "hash (snd (ExpireObject key s)) = AList.delete key (hash s)"
  by (simp add: ExpireObject_def Let_def split: option.splits)

subsection \<open>Get\<close>

lemma store_inv_in_age:
  "store_inv s \<Longrightarrow> map_of (hash s) key = Some obj \<Longrightarrow> key \<in> set (age s)"
  unfolding store_inv_def by (force dest: map_of_SomeD)

lemma Get_present:
  assumes "store_inv s" and "map_of (hash s) key = Some obj"
  shows "Get key s = (Inr obj, s\<lparr>age := remove1 key (age s) @ [key]\<rparr>)"
  using assms store_inv_in_age [OF assms] by (simp add: Get_def)

lemma Get_absent:
  "map_of (hash s) key = None \<Longrightarrow>
     Get key s = (Inl KeyError_key,
                  if key \<in> set (age s) then s\<lparr>age := remove1 key (age s) @ [key]\<rparr> else s)"
  by (simp add: Get_def)

lemma store_inv_touch:
  "store_inv s \<Longrightarrow> key \<in> set (age s) \<Longrightarrow> store_inv (s\<lparr>age := remove1 key (age s) @ [key]\<rparr>)"
  by (auto simp: store_inv_def dest: notin_set_remove1)

lemma no_orphans_touch:
  "no_orphans s \<Longrightarrow> distinct (age s) \<Longrightarrow> key \<in> set (age s) \<Longrightarrow> no_orphans (s\<lparr>age := remove1 key (age s) @ [key]\<rparr>)"
  by (auto simp: no_orphans_def dest: notin_set_remove1)

lemma Get_cases:
  "snd (Get key s) = (if key \<in> set (age s) then s\<lparr>age := remove1 key (age s) @ [key]\<rparr> else s)"
  by (simp add: Get_def Let_def split: option.splits)

lemma store_inv_Get: "store_inv s \<Longrightarrow> store_inv (snd (Get key s))"
  by (simp add: Get_cases store_inv_touch)

lemma no_orphans_Get: "no_orphans s \<Longrightarrow> distinct (age s) \<Longrightarrow> no_orphans (snd (Get key s))"
  by (simp add: Get_cases no_orphans_touch)

lemma AgeBasedCache_Get_state: "snd (AgeBasedCache_Get now key s) = snd (Get key s)"
  by (simp add: AgeBasedCache_Get_def split: prod.splits sum.splits option.splits)

lemma hash_Get: "hash (snd (Get key s)) = hash s"
  by (simp add: Get_cases)

lemma max_age_Get: "max_age (snd (Get key s)) = max_age s"
  by (simp add: Get_cases)

lemma AgeBasedCache_Get_present:
  assumes "store_inv s" and "map_of (hash s) key = Some (Some (ts, v))"
  shows "AgeBasedCache_Get now key s =
           (if ts + max_age s < now then Inl KeyError_Expired else Inr v,
            s\<lparr>age := remove1 key (age s) @ [key]\<rparr>)"
  by (simp add: AgeBasedCache_Get_def Get_present [OF assms])

lemma TimeBasedCache_Get_expired:
  assumes "store_inv s" and "map_of (hash s) key = Some (Some (ts, v))"
    and "ts + max_age s < now"
  shows "TimeBasedCache_Get now key s =
           (Inl KeyError_Expired, s\<lparr>age := remove1 key (age s) @ [key]\<rparr>)"
  using assms(3) by (simp add: TimeBasedCache_Get_def Get_present [OF assms(1,2)])

text \<open>What a \<^verbatim>\<open>Get\<close> that raises Expired has found, and how it leaves the store.\<close>

lemma TimeBasedCache_Get_Expired_iff:
  "fst (TimeBasedCache_Get now key s) = Inl KeyError_Expired \<longleftrightarrow>
     key \<in> set (age s) \<and>
     (\<exists>ts v. map_of (hash s) key = Some (Some (ts, v)) \<and> ts + max_age s < now)"
  by (auto simp: TimeBasedCache_Get_def Get_def Let_def split: option.splits)

lemma TimeBasedCache_Get_Expired_state:
  "fst (TimeBasedCache_Get now key s) = Inl KeyError_Expired \<Longrightarrow>
     snd (TimeBasedCache_Get now key s) = s\<lparr>age := remove1 key (age s) @ [key]\<rparr>"
  by (auto simp: TimeBasedCache_Get_def Get_def Let_def split: option.splits if_splits)

lemma AgeBasedCache_reads_facts:
  "store_inv s \<Longrightarrow>
     store_inv (AgeBasedCache_reads moments key s) \<and>
     hash (AgeBasedCache_reads moments key s) = hash s \<and>
     max_age (AgeBasedCache_reads moments key s) = max_age s"
  by (induction moments arbitrary: s)
     (simp_all add: AgeBasedCache_Get_state store_inv_Get hash_Get max_age_Get)

subsection \<open>ExpireObject and Expire\<close>

lemma limit_ExpireObject: "limit (snd (ExpireObject key s)) = limit s"
  by (simp add: ExpireObject_def Let_def split: option.splits)

lemma kill_cb_ExpireObject: "kill_cb (snd (ExpireObject key s)) = kill_cb s"
  by (simp add: ExpireObject_def Let_def split: option.splits)

lemma ExpireObject_state:
  "snd (ExpireObject key s) =
     s\<lparr>hash := AList.delete key (hash s),
       killed := killed s @ (if kill_cb s then expired_objects [key] (hash s) else [])\<rparr>"
  by (simp add: ExpireObject_def Let_def split: option.splits)

lemma ExpireObject_result:
  "fst (ExpireObject key s) = (case map_of (hash s) key of None \<Rightarrow> None | Some obj \<Rightarrow> obj)"
  by (simp add: ExpireObject_def Let_def split: option.splits)

lemma keys_of_ExpireObject: "keys_of (snd (ExpireObject key s)) = removeAll key (keys_of s)"
  by (simp add: hash_ExpireObject delete_keys)

lemma store_inv_ExpireObject: "store_inv s \<Longrightarrow> store_inv (snd (ExpireObject key s))"
  by (auto simp: store_inv_def keys_of_ExpireObject age_ExpireObject distinct_removeAll)

lemma store_inv_pop:
  "store_inv s \<Longrightarrow> age s = x # rest \<Longrightarrow> store_inv (snd (ExpireObject x (s\<lparr>age := rest\<rparr>)))"
  by (auto simp: store_inv_def keys_of_ExpireObject age_ExpireObject distinct_removeAll)

lemma no_orphans_pop:
  "no_orphans s \<Longrightarrow> distinct (age s) \<Longrightarrow> age s = x # rest \<Longrightarrow>
     no_orphans (snd (ExpireObject x (s\<lparr>age := rest\<rparr>)))"
  by (auto simp: no_orphans_def keys_of_ExpireObject age_ExpireObject)

lemma Expire_stop: "\<not> limit s < int (length (age s)) \<Longrightarrow> Expire s = (Inr (), s)"
  by (simp add: Expire.simps)

lemma Expire_step:
  "limit s < int (length (age s)) \<Longrightarrow> age s = x # rest \<Longrightarrow>
     Expire s = Expire (snd (ExpireObject x (s\<lparr>age := rest\<rparr>)))"
  by (subst Expire.simps) simp

lemma Expire_empty: "limit s < int (length (age s)) \<Longrightarrow> age s = [] \<Longrightarrow> Expire s = (Inl IndexError, s)"
  by (subst Expire.simps) simp

lemma store_inv_Expire: "store_inv s \<Longrightarrow> store_inv (snd (Expire s))"
proof (induction s rule: Expire.induct)
  case (1 s)
  show ?case
  proof (cases "limit s < int (length (age s))")
    case False
    then show ?thesis using "1.prems" by (simp add: Expire_stop)
  next
    case True
    show ?thesis
    proof (cases "age s")
      case Nil
      then show ?thesis using True "1.prems" by (simp add: Expire_empty)
    next
      case (Cons x rest)
      then show ?thesis
        using "1.IH" [OF True Cons] store_inv_pop [OF "1.prems" Cons]
        by (simp add: Expire_step [OF True Cons])
    qed
  qed
qed

lemma no_orphans_Expire:
  "store_inv s \<Longrightarrow> no_orphans s \<Longrightarrow> no_orphans (snd (Expire s))"
proof (induction s rule: Expire.induct)
  case (1 s)
  show ?case
  proof (cases "limit s < int (length (age s))")
    case False
    then show ?thesis using "1.prems" by (simp add: Expire_stop)
  next
    case True
    show ?thesis
    proof (cases "age s")
      case Nil
      then show ?thesis using True "1.prems" by (simp add: Expire_empty)
    next
      case (Cons x rest)
      have d: "distinct (age s)" using "1.prems"(1) by (simp add: store_inv_def)
      show ?thesis
        using "1.IH" [OF True Cons store_inv_pop [OF "1.prems"(1) Cons]
                no_orphans_pop [OF "1.prems"(2) d Cons]]
        by (simp add: Expire_step [OF True Cons])
    qed
  qed
qed

lemma filter_delete:
  "filter (\<lambda>p. fst p \<notin> set ks) (AList.delete x h) = filter (\<lambda>p. fst p \<notin> set (x # ks)) h"
  by (induction h) auto

lemma Expire_spec:
  "0 \<le> limit s \<Longrightarrow>
     Expire s =
       (Inr (),
        s\<lparr>age := drop (length (age s) - nat (limit s)) (age s),
          hash := filter (\<lambda>p. fst p \<notin> set (take (length (age s) - nat (limit s)) (age s))) (hash s),
          killed := killed s @
            (if kill_cb s
             then expired_objects (take (length (age s) - nat (limit s)) (age s)) (hash s)
             else [])\<rparr>)"
proof (induction s rule: Expire.induct)
  case (1 s)
  show ?case
  proof (cases "limit s < int (length (age s))")
    case False
    then have "length (age s) - nat (limit s) = 0" by linarith
    then show ?thesis using False by (simp add: Expire_stop)
  next
    case True
    show ?thesis
    proof (cases "age s")
      case Nil
      then show ?thesis using True "1.prems" by simp
    next
      case (Cons x rest)
      let ?s1 = "snd (ExpireObject x (s\<lparr>age := rest\<rparr>))"
      have n: "length (age s) - nat (limit s) = Suc (length rest - nat (limit s))"
        using True "1.prems" Cons by (simp add: Suc_diff_le nat_le_iff)
      have l: "0 \<le> limit ?s1" using "1.prems" by (simp add: limit_ExpireObject)
      show ?thesis
        unfolding Expire_step [OF True Cons] "1.IH" [OF True Cons l] n
        by (simp add: ExpireObject_state Cons filter_delete)
    qed
  qed
qed

subsection \<open>Put\<close>

lemma Put_unfold:
  "Put key obj s =
     (case Expire (s\<lparr>hash := AList.update key obj (hash s),
                    age := remove1 key (age s) @ [key]\<rparr>) of
        (Inl e, s4) \<Rightarrow> (Inl e, s4)
      | (Inr _, s4) \<Rightarrow> (Inr key, s4))"
  by (simp add: Put_def remove1_idem)

lemma snd_Put:
  "snd (Put key obj s) =
     snd (Expire (s\<lparr>hash := AList.update key obj (hash s),
                    age := remove1 key (age s) @ [key]\<rparr>))"
  by (simp add: Put_unfold split: prod.splits sum.splits)

lemma store_inv_appended:
  "store_inv s \<Longrightarrow>
     store_inv (s\<lparr>hash := AList.update key obj (hash s),
                    age := remove1 key (age s) @ [key]\<rparr>)"
  by (auto simp: store_inv_def update_keys distinct_update dest: notin_set_remove1)

lemma no_orphans_appended:
  "no_orphans s \<Longrightarrow> distinct (age s) \<Longrightarrow>
     no_orphans (s\<lparr>hash := AList.update key obj (hash s),
                    age := remove1 key (age s) @ [key]\<rparr>)"
  by (auto simp: no_orphans_def update_keys dest: notin_set_remove1)

lemma store_inv_Put: "store_inv s \<Longrightarrow> store_inv (snd (Put key obj s))"
  by (simp add: snd_Put store_inv_Expire store_inv_appended)

lemma no_orphans_Put: "store_inv s \<Longrightarrow> no_orphans s \<Longrightarrow> no_orphans (snd (Put key obj s))"
proof -
  assume a: "store_inv s" and b: "no_orphans s"
  have d: "distinct (age s)" using a by (simp add: store_inv_def)
  show ?thesis
    unfolding snd_Put
    by (rule no_orphans_Expire [OF store_inv_appended [OF a] no_orphans_appended [OF b d]])
qed

lemma Put_returns_key: "0 \<le> limit s \<Longrightarrow> fst (Put key obj s) = Inr key"
  by (simp add: Put_unfold Expire_spec)

lemma limit_Put: "0 \<le> limit s \<Longrightarrow> limit (snd (Put key obj s)) = limit s"
  by (simp add: snd_Put Expire_spec)

lemma length_age_Put: "0 \<le> limit s \<Longrightarrow> int (length (age (snd (Put key obj s)))) \<le> limit s"
  by (simp add: snd_Put Expire_spec)

lemma length_hash_le_age: "store_inv s \<Longrightarrow> length (hash s) \<le> length (age s)"
proof -
  assume a: "store_inv s"
  then have "card (set (keys_of s)) \<le> card (set (age s))"
    unfolding store_inv_def by (intro card_mono) simp_all
  moreover have "card (set (keys_of s)) = length (keys_of s)"
    using a unfolding store_inv_def by (intro distinct_card) simp
  moreover have "card (set (age s)) = length (age s)"
    using a unfolding store_inv_def by (intro distinct_card) simp
  ultimately show ?thesis by simp
qed

lemma snd_TimeBasedCache_Put:
  "snd (TimeBasedCache_Put now key obj s) = snd (Put key (Some (now, obj)) s)"
  by (simp add: TimeBasedCache_Put_def split: prod.splits sum.splits)

lemma Puts_bounded:
  "store_inv s \<Longrightarrow> 0 \<le> limit s \<Longrightarrow> int (length (age s)) \<le> limit s \<Longrightarrow>
     store_inv (Puts ps s) \<and> limit (Puts ps s) = limit s \<and>
     int (length (age (Puts ps s))) \<le> limit s"
proof (induction ps arbitrary: s)
  case Nil
  then show ?case by simp
next
  case (Cons p ps)
  obtain key obj where p: "p = (key, obj)" by (cases p)
  let ?s1 = "snd (Put key obj s)"
  have "store_inv ?s1" "0 \<le> limit ?s1" "int (length (age ?s1)) \<le> limit ?s1"
    using Cons.prems by (simp_all add: store_inv_Put limit_Put length_age_Put)
  from Cons.IH [OF this] show ?case
    using Cons.prems(2) by (simp add: p limit_Put)
qed

lemma TimeBasedCache_Puts_bounded:
  "store_inv s \<Longrightarrow> 0 \<le> limit s \<Longrightarrow> int (length (age s)) \<le> limit s \<Longrightarrow>
     store_inv (TimeBasedCache_Puts ps s) \<and> limit (TimeBasedCache_Puts ps s) = limit s \<and>
     int (length (age (TimeBasedCache_Puts ps s))) \<le> limit s"
proof (induction ps arbitrary: s)
  case Nil
  then show ?case by simp
next
  case (Cons p ps)
  obtain now key obj where p: "p = (now, key, obj)" by (cases p)
  let ?s1 = "snd (Put key (Some (now, obj)) s)"
  have "store_inv ?s1" "0 \<le> limit ?s1" "int (length (age ?s1)) \<le> limit ?s1"
    using Cons.prems by (simp_all add: store_inv_Put limit_Put length_age_Put)
  from Cons.IH [OF this] show ?case
    using Cons.prems(2) by (simp add: p limit_Put snd_TimeBasedCache_Put)
qed

lemma store_inv_FastStore_init: "store_inv (FastStore_init n cb)"
  by (simp add: FastStore_init_def store_inv_def)

lemma store_inv_TimeBasedCache_init: "store_inv (TimeBasedCache_init n a cb)"
  by (simp add: TimeBasedCache_init_def store_inv_def)

subsection \<open>Flush\<close>

lemma Flush_loop_spec:
  "Flush_loop s =
     s\<lparr>age := [],
       hash := filter (\<lambda>p. fst p \<notin> set (age s)) (hash s),
       killed := killed s @ (if kill_cb s then expired_objects (age s) (hash s) else [])\<rparr>"
proof (induction s rule: Flush_loop.induct)
  case (1 s)
  show ?case
  proof (cases "age s")
    case Nil
    then show ?thesis by (subst Flush_loop.simps) simp
  next
    case (Cons x rest)
    show ?thesis
      by (subst Flush_loop.simps, simp only: Cons list.case "1.IH" [OF Cons])
         (simp add: ExpireObject_state Cons filter_delete)
  qed
qed

lemma Flush_spec:
  "Flush s =
     s\<lparr>age := [], hash := [],
       killed := killed s @ (if kill_cb s then expired_objects (age s) (hash s) else [])\<rparr>"
  by (simp add: Flush_def Flush_loop_spec)

subsection \<open>The housekeeper\<close>








subsection \<open>The invariant under the remaining methods\<close>

lemma store_inv_ExpireRegEx_loop: "store_inv s \<Longrightarrow> store_inv (ExpireRegEx_loop m ks s)"
  by (induction ks arbitrary: s) (simp_all add: store_inv_ExpireObject)

lemma store_inv_ExpireRegEx: "store_inv s \<Longrightarrow> store_inv (ExpireRegEx m s)"
  by (simp add: ExpireRegEx_def store_inv_ExpireRegEx_loop)

lemma store_inv_Flush: "store_inv (Flush s)"
  by (simp add: Flush_spec store_inv_def)

lemma no_orphans_Flush: "no_orphans (Flush s)"
  by (simp add: Flush_spec no_orphans_def)

lemma store_inv_HouseKeeper_loop: "store_inv s \<Longrightarrow> store_inv (snd (HouseKeeper_loop now ks s))"
  by (induction ks arbitrary: s) (auto simp: store_inv_ExpireObject split: option.splits)

lemma store_inv_HouseKeeper: "store_inv s \<Longrightarrow> store_inv (snd (HouseKeeper now s))"
  by (simp add: HouseKeeper_def store_inv_HouseKeeper_loop)

lemma appended_order:
  "s\<lparr>age := a, hash := h\<rparr> = s\<lparr>hash := h, age := a\<rparr>"
  by simp

lemma TimeBasedCache_Get_state:
  "snd (TimeBasedCache_Get now key s) = snd (Get key s) \<or>
   (\<exists>obj. snd (TimeBasedCache_Get now key s) =
      s\<lparr>age := remove1 key (age s) @ [key], hash := AList.update key obj (hash s)\<rparr>)"
  by (auto simp: TimeBasedCache_Get_def Get_def Let_def split: option.splits)

lemma store_inv_TimeBasedCache_Get:
  "store_inv s \<Longrightarrow> store_inv (snd (TimeBasedCache_Get now key s))"
  using TimeBasedCache_Get_state [of now key s] store_inv_Get [of s key]
    store_inv_appended [of s key]
  unfolding appended_order by auto

lemma no_orphans_TimeBasedCache_Get:
  "store_inv s \<Longrightarrow> no_orphans s \<Longrightarrow> no_orphans (snd (TimeBasedCache_Get now key s))"
  using TimeBasedCache_Get_state [of now key s] no_orphans_Get [of s key]
    no_orphans_appended [of s key]
  unfolding appended_order store_inv_def by auto

subsection \<open>The scenarios of the specification\<close>

lemma sliding_example:
  "(let c0 = TimeBasedCache_init 10 (10::int) False;
        (r0, c1) = TimeBasedCache_Put 0 k v c0;
        (r1, c2) = TimeBasedCache_Get 9 k c1;
        (r2, c3) = TimeBasedCache_Get 18 k c2;
        (r3, c4) = TimeBasedCache_Get 29 k c3
    in r1 = Inr v \<and> r2 = Inr v \<and> r3 = Inl KeyError_Expired)"
  by (simp add: TimeBasedCache_init_def TimeBasedCache_Put_def Put_def Expire.simps
        TimeBasedCache_Get_def Get_def)

lemma sliding_example_float:
  "(let c0 = TimeBasedCache_init 10 (Double 10 0) False;
        (r0, c1) = TimeBasedCache_Put (Double 0 0) k v c0;
        (r1, c2) = TimeBasedCache_Get (Double 9 0) k c1;
        (r2, c3) = TimeBasedCache_Get (Double 18 0) k c2;
        (r3, c4) = TimeBasedCache_Get (Double 29 0) k c3
    in r1 = Inr v \<and> r2 = Inr v \<and> r3 = Inl KeyError_Expired)"
  by (simp add: TimeBasedCache_init_def TimeBasedCache_Put_def Put_def Expire.simps
        TimeBasedCache_Get_def Get_def plus_double_def round53_def less_double_def)

lemma absolute_example:
  "(let c0 = TimeBasedCache_init 10 (10::int) False;
        (r0, c1) = TimeBasedCache_Put 0 k w c0;
        (r1, c2) = AgeBasedCache_Get 5 k c1;
        (r2, c3) = AgeBasedCache_Get 11 k c2
    in r1 = Inr w \<and> r2 = Inl KeyError_Expired)"
  by (simp add: TimeBasedCache_init_def TimeBasedCache_Put_def Put_def Expire.simps
        AgeBasedCache_Get_def Get_def)

lemma absolute_example_float:
  "(let c0 = TimeBasedCache_init 10 (Double 10 0) False;
        (r0, c1) = TimeBasedCache_Put (Double 0 0) k w c0;
        (r1, c2) = AgeBasedCache_Get (Double 5 0) k c1;
        (r2, c3) = AgeBasedCache_Get (Double 11 0) k c2
    in r1 = Inr w \<and> r2 = Inl KeyError_Expired)"
  by (simp add: TimeBasedCache_init_def TimeBasedCache_Put_def Put_def Expire.simps
        AgeBasedCache_Get_def Get_def plus_double_def round53_def less_double_def)

lemma expired_then_Put_example:
  "(let c0 = TimeBasedCache_init 2 10 False :: (string, nat, int) TimeBasedCache;
        (r0, c1) = TimeBasedCache_Put 0 ''a'' 1 c0;
        (r1, c2) = TimeBasedCache_Put 1 ''b'' 2 c1;
        (r2, c3) = TimeBasedCache_Get 20 ''a'' c2;
        (r3, c4) = TimeBasedCache_Put 21 ''c'' 3 c3
    in r2 = Inl KeyError_Expired \<and> age c2 = [''a'', ''b''] \<and> age c3 = [''b'', ''a''] \<and>
       contains ''a'' c4 \<and> \<not> contains ''b'' c4 \<and> contains ''c'' c4)"
  by (simp add: TimeBasedCache_init_def TimeBasedCache_Put_def Put_def Expire.simps
        ExpireObject_def TimeBasedCache_Get_def Get_def contains_def)

lemma LRU_example:
  "(let s = Puts [(''a'', Some (1::nat)), (''b'', Some 2), (''c'', Some 3)] (FastStore_init 2 True)
    in age s = [''b'', ''c''] \<and> hash s = [(''b'', Some 2), (''c'', Some 3)] \<and> killed s = [1] \<and>
       fst (Get ''b'' s) = Inr (Some 2) \<and> fst (Get ''c'' s) = Inr (Some 3) \<and>
       fst (Get ''a'' s) = Inl KeyError_key)"
  by (simp add: FastStore_init_def Put_def Expire.simps ExpireObject_def Get_def)

lemma touch_example:
  "(let s0 = Puts [(''a'', Some (1::nat)), (''b'', Some 2)] (FastStore_init 2 True);
        (r, s1) = Get ''a'' s0;
        s = snd (Put ''c'' (Some 3) s1)
    in r = Inr (Some 1) \<and> age s = [''a'', ''c''] \<and>
       hash s = [(''a'', Some 1), (''c'', Some 3)] \<and> killed s = [2])"
  by (simp add: FastStore_init_def Put_def Expire.simps ExpireObject_def Get_def)



section \<open>The claims\<close>

subsection \<open>C1: the keys of \<^verbatim>\<open>_age\<close> and of \<^verbatim>\<open>_hash\<close>\<close>

text \<open>
  Claim C1 says that after every operation \<^verbatim>\<open>_age\<close> and \<^verbatim>\<open>_hash\<close> have the same keys.
  \<^verbatim>\<open>ExpireObject\<close> takes the key out of \<^verbatim>\<open>_hash\<close> only, and \<^verbatim>\<open>ExpireRegEx\<close> and the
  housekeeper remove through it: after each of the three, \<^verbatim>\<open>_age\<close> holds a key that
  \<^verbatim>\<open>_hash\<close> has not.
\<close>

theorem no_orphans_counterexample:
  "age store_a_stale_b = [''a'', ''b''] \<and> keys_of store_a_stale_b = [''a''] \<and>
   \<not> no_orphans store_a_stale_b \<and>
   \<not> no_orphans (ExpireRegEx (\<lambda>key. True) store_ab) \<and>
   \<not> no_orphans (snd (HouseKeeper 10 cache_ab))"
  by (simp add: store_a_stale_b_eq store_ab_eq cache_ab_eq no_orphans_def ExpireRegEx_def
        HouseKeeper_def ExpireObject_def)

text \<open>
  Claim C1, amended. A new store satisfies \<open>store_inv\<close> (every key of \<^verbatim>\<open>_hash\<close> is in
  \<^verbatim>\<open>_age\<close>, and neither holds a key twice) and \<open>no_orphans\<close> (the two have the same keys).
  Every method keeps \<open>store_inv\<close>: \<^verbatim>\<open>Put\<close>, \<^verbatim>\<open>Get\<close>, \<^verbatim>\<open>ExpireObject\<close>, \<^verbatim>\<open>ExpireRegEx\<close>,
  \<^verbatim>\<open>Flush\<close>, \<^verbatim>\<open>Expire\<close>, and in the caches with a time \<^verbatim>\<open>Put\<close>, both \<^verbatim>\<open>Get\<close>s and a run
  of the housekeeper, also when they raise (\<^verbatim>\<open>__contains__\<close> changes nothing). And
  \<^verbatim>\<open>Put\<close>, \<^verbatim>\<open>Get\<close>, \<^verbatim>\<open>Flush\<close> and \<^verbatim>\<open>Expire\<close> keep \<open>no_orphans\<close> as well; \<^verbatim>\<open>ExpireObject\<close>,
  \<^verbatim>\<open>ExpireRegEx\<close> and the housekeeper do not, by the counterexample.
\<close>

theorem store_inv_preserved:
  "store_inv (FastStore_init n cb) \<and> no_orphans (FastStore_init n cb) \<and>
   store_inv (TimeBasedCache_init n a cb) \<and> no_orphans (TimeBasedCache_init n a cb) \<and>
   (store_inv s \<longrightarrow>
      store_inv (snd (Put key obj s)) \<and> store_inv (snd (Get key s)) \<and>
      store_inv (snd (ExpireObject key s)) \<and> store_inv (ExpireRegEx m s) \<and>
      store_inv (Flush s) \<and> store_inv (snd (Expire s))) \<and>
   (store_inv t \<longrightarrow>
      store_inv (snd (TimeBasedCache_Put now key v t)) \<and>
      store_inv (snd (TimeBasedCache_Get now key t)) \<and>
      store_inv (snd (AgeBasedCache_Get now key t)) \<and>
      store_inv (snd (HouseKeeper now t))) \<and>
   (store_inv s \<and> no_orphans s \<longrightarrow>
      no_orphans (snd (Put key obj s)) \<and> no_orphans (snd (Get key s)) \<and>
      no_orphans (Flush s) \<and> no_orphans (snd (Expire s))) \<and>
   (store_inv t \<and> no_orphans t \<longrightarrow>
      no_orphans (snd (TimeBasedCache_Put now key v t)) \<and>
      no_orphans (snd (TimeBasedCache_Get now key t)) \<and>
      no_orphans (snd (AgeBasedCache_Get now key t)))"
proof (intro conjI impI)
  show "no_orphans (FastStore_init n cb)" "no_orphans (TimeBasedCache_init n a cb)"
    by (simp_all add: FastStore_init_def TimeBasedCache_init_def no_orphans_def)
next
  assume "store_inv s \<and> no_orphans s"
  then have s: "store_inv s" "no_orphans s" "distinct (age s)"
    by (simp_all add: store_inv_def)
  show "no_orphans (snd (Put key obj s))" using s by (simp add: no_orphans_Put)
  show "no_orphans (snd (Get key s))" using s by (simp add: no_orphans_Get)
  show "no_orphans (snd (Expire s))" using s by (simp add: no_orphans_Expire)
next
  assume "store_inv t \<and> no_orphans t"
  then have t: "store_inv t" "no_orphans t" "distinct (age t)"
    by (simp_all add: store_inv_def)
  show "no_orphans (snd (TimeBasedCache_Put now key v t))"
    using t by (simp add: snd_TimeBasedCache_Put no_orphans_Put)
  show "no_orphans (snd (TimeBasedCache_Get now key t))"
    using t by (simp add: no_orphans_TimeBasedCache_Get)
  show "no_orphans (snd (AgeBasedCache_Get now key t))"
    using t by (simp add: AgeBasedCache_Get_state no_orphans_Get)
qed (simp_all add: store_inv_FastStore_init store_inv_TimeBasedCache_init store_inv_Put
      store_inv_Get store_inv_ExpireObject store_inv_ExpireRegEx store_inv_Flush store_inv_Expire
      snd_TimeBasedCache_Put store_inv_TimeBasedCache_Get AgeBasedCache_Get_state
      store_inv_HouseKeeper no_orphans_Flush)

theorem store_inv_preserved_witness:
  "store_inv store_ab \<and> no_orphans store_ab \<and> store_inv cache_ab \<and> no_orphans cache_ab \<and>
   store_inv (snd (ExpireObject ''b'' store_ab)) \<and>
   store_inv (snd (HouseKeeper 10 cache_ab)) \<and>
   no_orphans (snd (Put ''c'' (Some 3) store_ab)) \<and>
   no_orphans (snd (TimeBasedCache_Get 9 ''b'' cache_ab))"
proof -
  have a: "store_inv store_ab" "no_orphans store_ab" "store_inv cache_ab" "no_orphans cache_ab"
    by (simp_all add: store_ab_eq cache_ab_eq store_inv_def no_orphans_def)
  note inst = store_inv_preserved [where s = store_ab and t = cache_ab and a = "0::int"]
  have "store_inv (snd (ExpireObject ''b'' store_ab))" using inst a by blast
  moreover have "store_inv (snd (HouseKeeper 10 cache_ab))" using inst a by blast
  moreover have "no_orphans (snd (Put ''c'' (Some 3) store_ab))" using inst a by blast
  moreover have "no_orphans (snd (TimeBasedCache_Get 9 ''b'' cache_ab))" using inst a by blast
  ultimately show ?thesis using a by simp
qed

subsection \<open>C2: the capacity bound\<close>

text \<open>
  Claim C2. For a store created with \<^verbatim>\<open>max_size > 0\<close> and any sequence of \<^verbatim>\<open>Put\<close> calls,
  the number of entries of \<^verbatim>\<open>_hash\<close> after the sequence is at most \<^verbatim>\<open>max_size\<close> (the keys
  of \<^verbatim>\<open>_hash\<close> being distinct, its length is the number of entries). The sequence is
  arbitrary, so the bound holds after each of its calls. It is stated for the FastStore
  and for the TimeBasedCache, whose \<^verbatim>\<open>Put\<close> is FastStore's on \<^verbatim>\<open>[time, obj]\<close>.
\<close>

theorem capacity_invariant:
  assumes "0 < n"
  shows "int (length (hash (Puts ps (FastStore_init n cb)))) \<le> n \<and>
         distinct (keys_of (Puts ps (FastStore_init n cb))) \<and>
         int (length (hash (TimeBasedCache_Puts tps (TimeBasedCache_init n a cb)))) \<le> n \<and>
         distinct (keys_of (TimeBasedCache_Puts tps (TimeBasedCache_init n a cb)))"
proof -
  let ?s = "Puts ps (FastStore_init n cb)"
  let ?t = "TimeBasedCache_Puts tps (TimeBasedCache_init n a cb)"
  have s: "store_inv ?s \<and> limit ?s = n \<and> int (length (age ?s)) \<le> n"
    using Puts_bounded [OF store_inv_FastStore_init, of n cb ps] assms
    by (simp add: FastStore_init_def)
  have t: "store_inv ?t \<and> limit ?t = n \<and> int (length (age ?t)) \<le> n"
    using TimeBasedCache_Puts_bounded [OF store_inv_TimeBasedCache_init, of n a cb tps] assms
    by (simp add: TimeBasedCache_init_def)
  show ?thesis
    using s t length_hash_le_age [of ?s] length_hash_le_age [of ?t]
    by (simp add: store_inv_def)
qed

theorem capacity_invariant_witness:
  "(0::int) < 2 \<and>
   length (hash (Puts [(''a'', Some (1::nat)), (''b'', Some 2), (''c'', Some 3)]
                   (FastStore_init 2 True))) = 2 \<and>
   length (hash (TimeBasedCache_Puts [(0::int, ''a'', 1::nat), (1, ''b'', 2), (2, ''a'', 3), (3, ''c'', 4)]
                   (TimeBasedCache_init 2 10 False))) = 2"
proof -
  have pos: "(0::int) < 2" by simp
  let ?s = "Puts [(''a'', Some (1::nat)), (''b'', Some 2), (''c'', Some 3)] (FastStore_init 2 True)"
  let ?t = "TimeBasedCache_Puts [(0::int, ''a'', 1::nat), (1, ''b'', 2), (2, ''a'', 3), (3, ''c'', 4)]
              (TimeBasedCache_init 2 10 False)"
  have le1: "int (length (hash ?s)) \<le> 2"
    by (rule capacity_invariant [OF pos, where a = "10::int" and cb = True
          and tps = "[] :: (int \<times> string \<times> nat) list", THEN conjunct1])
  have le2: "int (length (hash ?t)) \<le> 2"
    by (rule capacity_invariant [OF pos, where a = "10::int" and cb = False
          and ps = "[] :: (string \<times> nat option) list",
          THEN conjunct2, THEN conjunct2, THEN conjunct1])
  note le = le1 le2
  have ge: "2 \<le> length (hash ?s)" "2 \<le> length (hash ?t)"
    by (simp_all add: FastStore_init_def TimeBasedCache_init_def TimeBasedCache_Put_def Put_def
          Expire.simps ExpireObject_def)
  show ?thesis using pos le ge by simp
qed

subsection \<open>C3: Expire\<close>

text \<open>
  Claim C3 says that \<^verbatim>\<open>Expire\<close> removes entries while the number of entries exceeds
  \<^verbatim>\<open>max_size\<close>, calling the callback for each entry removed. The loop tests
  \<^verbatim>\<open>len(self._age)\<close>, and \<^verbatim>\<open>_age\<close> still holds the keys that \<^verbatim>\<open>ExpireObject\<close> took out of
  \<^verbatim>\<open>_hash\<close>. In the store with \<^verbatim>\<open>max_size = 2\<close> where \<open>a\<close> is stored and \<open>b\<close> has been
  expired, \<^verbatim>\<open>Put("c", 3)\<close> brings the number of entries to 2, which does not exceed
  \<^verbatim>\<open>max_size\<close>, and yet evicts \<open>a\<close>, calling the callback with 1. And an entry whose
  object is \<^verbatim>\<open>None\<close> is evicted without a call of the callback.
\<close>

theorem Expire_entry_count_counterexample:
  "limit store_a_stale_b = 2 \<and> hash store_a_stale_b = [(''a'', Some 1)] \<and>
   killed store_a_stale_b = [2] \<and>
   fst (Put ''c'' (Some 3) store_a_stale_b) = Inr ''c'' \<and>
   hash (snd (Put ''c'' (Some 3) store_a_stale_b)) = [(''c'', Some 3)] \<and>
   killed (snd (Put ''c'' (Some 3) store_a_stale_b)) = [2, 1] \<and>
   hash (Puts [(''a'', None), (''b'', Some 2), (''c'', Some 3)]
           (FastStore_init 2 True :: (string, nat) FastStore)) =
     [(''b'', Some 2), (''c'', Some 3)] \<and>
   killed (Puts [(''a'', None), (''b'', Some 2), (''c'', Some 3)]
           (FastStore_init 2 True :: (string, nat) FastStore)) = []"
  by (simp add: store_a_stale_b_eq FastStore_init_def Put_def Expire.simps ExpireObject_def)

text \<open>
  Claim C3, amended. In a store whose limit is not negative, \<^verbatim>\<open>Expire\<close> raises nothing
  and removes keys from the front of \<^verbatim>\<open>_age\<close> while the length of \<^verbatim>\<open>_age\<close> exceeds
  \<^verbatim>\<open>max_size\<close>: with \<open>n = len(_age) - max_size\<close> (0 when that is negative), the first \<open>n\<close>
  keys leave \<^verbatim>\<open>_age\<close>, their entries leave \<^verbatim>\<open>_hash\<close>, and the callback, when there is one,
  is called in that order on the objects of those entries that are not \<^verbatim>\<open>None\<close>; nothing
  else changes. With \<^verbatim>\<open>max_size = 2\<close>: \<^verbatim>\<open>Put(a, 1)\<close>, \<^verbatim>\<open>Put(b, 2)\<close>, \<^verbatim>\<open>Put(c, 3)\<close> evicts
  \<open>a\<close> (one call of the callback, with 1) and leaves \<open>b\<close> and \<open>c\<close>; \<^verbatim>\<open>Put(a, 1)\<close>,
  \<^verbatim>\<open>Put(b, 2)\<close>, \<^verbatim>\<open>Get(a)\<close>, \<^verbatim>\<open>Put(c, 3)\<close> evicts \<open>b\<close> and leaves \<open>a\<close> and \<open>c\<close>.
\<close>

theorem Expire_evicts_front:
  assumes "0 \<le> limit s"
  shows "Expire s =
           (Inr (),
            s\<lparr>age := drop (length (age s) - nat (limit s)) (age s),
              hash := filter (\<lambda>p. fst p \<notin> set (take (length (age s) - nat (limit s)) (age s)))
                        (hash s),
              killed := killed s @
                (if kill_cb s
                 then expired_objects (take (length (age s) - nat (limit s)) (age s)) (hash s)
                 else [])\<rparr>) \<and>
         (let s = Puts [(''a'', Some (1::nat)), (''b'', Some 2), (''c'', Some 3)]
                    (FastStore_init 2 True)
          in age s = [''b'', ''c''] \<and> hash s = [(''b'', Some 2), (''c'', Some 3)] \<and>
             killed s = [1] \<and>
             fst (Get ''b'' s) = Inr (Some 2) \<and> fst (Get ''c'' s) = Inr (Some 3) \<and>
             fst (Get ''a'' s) = Inl KeyError_key) \<and>
         (let s0 = Puts [(''a'', Some (1::nat)), (''b'', Some 2)] (FastStore_init 2 True);
              (r, s1) = Get ''a'' s0;
              s = snd (Put ''c'' (Some 3) s1)
          in r = Inr (Some 1) \<and> age s = [''a'', ''c''] \<and>
             hash s = [(''a'', Some 1), (''c'', Some 3)] \<and> killed s = [2])"
  using Expire_spec [OF assms] LRU_example touch_example by blast

theorem Expire_evicts_front_witness:
  "0 \<le> limit store_a_stale_b \<and>
   Expire (store_a_stale_b\<lparr>hash := [(''a'', Some 1), (''c'', Some 3)],
                           age := [''a'', ''b'', ''c'']\<rparr>) =
     (Inr (), store_a_stale_b\<lparr>hash := [(''c'', Some 3)], age := [''b'', ''c''],
                              killed := [2, 1]\<rparr>)"
proof -
  let ?s = "store_a_stale_b\<lparr>hash := [(''a'', Some 1), (''c'', Some 3)],
                            age := [''a'', ''b'', ''c'']\<rparr>"
  have a: "0 \<le> limit ?s" by (simp add: store_a_stale_b_eq)
  have n: "length (age ?s) - nat (limit ?s) = Suc 0" by (simp add: store_a_stale_b_eq)
  show ?thesis
    using Expire_evicts_front [OF a, THEN conjunct1] a unfolding n
    by (simp add: store_a_stale_b_eq)
qed

subsection \<open>C4: Get of the TimeBasedCache\<close>

text \<open>
  Claim C4 says that \<^verbatim>\<open>Get\<close> raises Expired when \<open>now - last_touch_timestamp > max_age\<close>
  and returns the object otherwise. The code tests \<^verbatim>\<open>stored[0] + self.max_age < now\<close>, and
  its times are floats, whose sum is rounded. In the cache with \<^verbatim>\<open>max_age = 0.2\<close> that holds
  \<open>k\<close> since the time \<^verbatim>\<open>1700000000.0\<close>, a \<^verbatim>\<open>Get(k)\<close> at \<^verbatim>\<open>1700000000.2\<close> returns the object
  and sets its timestamp to that time, although the exact difference of the two times is
  greater than \<^verbatim>\<open>max_age\<close>: the sum \<^verbatim>\<open>1700000000.0 + 0.2\<close> is rounded to
  \<^verbatim>\<open>1700000000.2\<close>, which is not less than the time of the read.
\<close>

theorem sliding_TTL_rounding_counterexample:
  "is_double t_put \<and> is_double age_02 \<and> is_double t_get \<and>
   hash cache_float = [(''k'', Some (t_put, 7))] \<and> max_age cache_float = age_02 \<and>
   dval (max_age cache_float) < dval t_get - dval t_put \<and>
   TimeBasedCache_Get t_get ''k'' cache_float =
     (Inr 7, cache_float\<lparr>hash := [(''k'', Some (t_get, 7))]\<rparr>)"
  using float_inputs float_exact_difference float_not_less
  by (simp add: cache_float_eq TimeBasedCache_Get_def Get_def)

text \<open>
  Claim C4, amended. In a TimeBasedCache whose state satisfies the invariant \<open>store_inv\<close>,
  \<^verbatim>\<open>Get(key)\<close> at the time \<open>now\<close>
  \<^item> raises \<^verbatim>\<open>KeyError(key)\<close> (NotFound) when the key is not in \<^verbatim>\<open>_hash\<close>;
  \<^item> raises \<^verbatim>\<open>KeyError("Expired")\<close> when the key is stored with the timestamp \<open>ts\<close> and
    \<^verbatim>\<open>ts + max_age < now\<close>, the sum taken in the arithmetic of the times (rounded, for
    floats);
  \<^item> otherwise returns the stored object, and leaves the store with the key moved to
    the end of \<^verbatim>\<open>_age\<close> and its timestamp set to \<open>now\<close>, nothing else changed.

  For integer times, which add exactly, the test is the claim's \<open>now - ts > max_age\<close>.
  And with \<^verbatim>\<open>max_age = 10\<close>: after \<^verbatim>\<open>Put(k, v)\<close> at 0, \<^verbatim>\<open>Get(k)\<close> returns \<open>v\<close> at 9 and
  again at 18, and raises Expired at 29, with integer times and with float times.
\<close>

theorem TimeBasedCache_Get_sliding:
  assumes "store_inv s"
  shows "(map_of (hash s) key = None \<longrightarrow>
            fst (TimeBasedCache_Get now key s) = Inl KeyError_key) \<and>
         (map_of (hash s) key = Some (Some (ts, v)) \<and> ts + max_age s < now \<longrightarrow>
            fst (TimeBasedCache_Get now key s) = Inl KeyError_Expired) \<and>
         (map_of (hash s) key = Some (Some (ts, v)) \<and> \<not> ts + max_age s < now \<longrightarrow>
            TimeBasedCache_Get now key s =
              (Inr v, s\<lparr>age := remove1 key (age s) @ [key],
                         hash := AList.update key (Some (now, v)) (hash s)\<rparr>)) \<and>
         is_expired (n :: int) a (Some (t, x)) = (a < n - t) \<and>
         (let c0 = TimeBasedCache_init 10 (10::int) False;
              (r0, c1) = TimeBasedCache_Put 0 k w c0;
              (r1, c2) = TimeBasedCache_Get 9 k c1;
              (r2, c3) = TimeBasedCache_Get 18 k c2;
              (r3, c4) = TimeBasedCache_Get 29 k c3
          in r1 = Inr w \<and> r2 = Inr w \<and> r3 = Inl KeyError_Expired) \<and>
         (let c0 = TimeBasedCache_init 10 (Double 10 0) False;
              (r0, c1) = TimeBasedCache_Put (Double 0 0) k w c0;
              (r1, c2) = TimeBasedCache_Get (Double 9 0) k c1;
              (r2, c3) = TimeBasedCache_Get (Double 18 0) k c2;
              (r3, c4) = TimeBasedCache_Get (Double 29 0) k c3
          in r1 = Inr w \<and> r2 = Inr w \<and> r3 = Inl KeyError_Expired)"
proof (intro conjI impI)
  assume "map_of (hash s) key = None"
  then show "fst (TimeBasedCache_Get now key s) = Inl KeyError_key"
    by (simp add: TimeBasedCache_Get_def Get_absent)
next
  assume "map_of (hash s) key = Some (Some (ts, v)) \<and> ts + max_age s < now"
  then show "fst (TimeBasedCache_Get now key s) = Inl KeyError_Expired"
    by (simp add: TimeBasedCache_Get_def Get_present [OF assms])
next
  assume "map_of (hash s) key = Some (Some (ts, v)) \<and> \<not> ts + max_age s < now"
  then show "TimeBasedCache_Get now key s =
      (Inr v, s\<lparr>age := remove1 key (age s) @ [key],
                 hash := AList.update key (Some (now, v)) (hash s)\<rparr>)"
    by (simp add: TimeBasedCache_Get_def Get_present [OF assms])
next
  show "is_expired n a (Some (t, x)) = (a < n - t)"
    by (auto simp: is_expired_def)
next
  show "(let c0 = TimeBasedCache_init 10 (10::int) False;
              (r0, c1) = TimeBasedCache_Put 0 k w c0;
              (r1, c2) = TimeBasedCache_Get 9 k c1;
              (r2, c3) = TimeBasedCache_Get 18 k c2;
              (r3, c4) = TimeBasedCache_Get 29 k c3
          in r1 = Inr w \<and> r2 = Inr w \<and> r3 = Inl KeyError_Expired)"
    by (rule sliding_example)
next
  show "(let c0 = TimeBasedCache_init 10 (Double 10 0) False;
              (r0, c1) = TimeBasedCache_Put (Double 0 0) k w c0;
              (r1, c2) = TimeBasedCache_Get (Double 9 0) k c1;
              (r2, c3) = TimeBasedCache_Get (Double 18 0) k c2;
              (r3, c4) = TimeBasedCache_Get (Double 29 0) k c3
          in r1 = Inr w \<and> r2 = Inr w \<and> r3 = Inl KeyError_Expired)"
    by (rule sliding_example_float)
qed

theorem TimeBasedCache_Get_sliding_witness:
  "store_inv cache_ab \<and> store_inv cache_float \<and>
   fst (TimeBasedCache_Get 10 ''x'' cache_ab) = Inl KeyError_key \<and>
   fst (TimeBasedCache_Get 10 ''a'' cache_ab) = Inl KeyError_Expired \<and>
   TimeBasedCache_Get 10 ''b'' cache_ab =
     (Inr 2, cache_ab\<lparr>hash := [(''a'', Some (0, 1)), (''b'', Some (10, 2))]\<rparr>) \<and>
   TimeBasedCache_Get t_get ''k'' cache_float =
     (Inr 7, cache_float\<lparr>hash := [(''k'', Some (t_get, 7))]\<rparr>)"
proof -
  have a: "map_of (hash cache_ab) ''x'' = None"
    and b: "map_of (hash cache_ab) ''a'' = Some (Some (0, 1))"
    and b': "map_of (hash cache_ab) ''b'' = Some (Some (8, 2))"
    and c: "0 + max_age cache_ab < 10" "\<not> 8 + max_age cache_ab < 10"
    and d: "map_of (hash cache_float) ''k'' = Some (Some (t_put, 7))"
    and e: "\<not> t_put + max_age cache_float < t_get"
    using float_not_less by (simp_all add: cache_ab_eq cache_float_eq)
  note i = TimeBasedCache_Get_sliding [OF store_inv_cache_ab, where k = "''k''" and w = "7::nat"
      and n = 0 and a = 0 and t = 0 and x = "0::nat"]
  note f = TimeBasedCache_Get_sliding [OF store_inv_cache_float, where k = "''k''"
      and w = "7::nat" and n = 0 and a = 0 and t = 0 and x = "0::nat"]
  have "fst (TimeBasedCache_Get 10 ''x'' cache_ab) = Inl KeyError_key"
    using i [where key = "''x''" and now = 10, THEN conjunct1] a by simp
  moreover have "fst (TimeBasedCache_Get 10 ''a'' cache_ab) = Inl KeyError_Expired"
    using i [where key = "''a''" and ts = 0 and v = 1 and now = 10,
        THEN conjunct2, THEN conjunct1] b c(1) by simp
  moreover have "TimeBasedCache_Get 10 ''b'' cache_ab =
      (Inr 2, cache_ab\<lparr>age := remove1 ''b'' (age cache_ab) @ [''b''],
                         hash := AList.update ''b'' (Some (10, 2)) (hash cache_ab)\<rparr>)"
    using i [where key = "''b''" and ts = 8 and v = 2 and now = 10,
        THEN conjunct2, THEN conjunct2, THEN conjunct1] b' c(2) by simp
  moreover have "TimeBasedCache_Get t_get ''k'' cache_float =
      (Inr 7, cache_float\<lparr>age := remove1 ''k'' (age cache_float) @ [''k''],
                            hash := AList.update ''k'' (Some (t_get, 7)) (hash cache_float)\<rparr>)"
    using f [where key = "''k''" and ts = t_put and v = 7 and now = t_get,
        THEN conjunct2, THEN conjunct2, THEN conjunct1] d e by simp
  ultimately show ?thesis
    using store_inv_cache_ab store_inv_cache_float by (simp add: cache_ab_eq cache_float_eq)
qed

subsection \<open>C5: the housekeeper\<close>




subsection \<open>C6: no purge by Get\<close>

text \<open>
  Claim C6 says that a \<^verbatim>\<open>Get\<close> on a key that is present but expired removes the entry
  before it raises. Neither \<^verbatim>\<open>TimeBasedCache.Get\<close> nor \<^verbatim>\<open>AgeBasedCache.Get\<close> does: in the
  cache holding \<open>k\<close> since the time 0, with \<^verbatim>\<open>max_age = 10\<close>, a \<^verbatim>\<open>Get(k)\<close> at 29 raises
  Expired, and \<open>k\<close> is in the store afterwards.
\<close>

theorem lazy_purge_counterexample:
  "fst (TimeBasedCache_Get 29 ''k'' cache_k) = Inl KeyError_Expired \<and>
   contains ''k'' (snd (TimeBasedCache_Get 29 ''k'' cache_k)) \<and>
   fst (AgeBasedCache_Get 29 ''k'' cache_k) = Inl KeyError_Expired \<and>
   contains ''k'' (snd (AgeBasedCache_Get 29 ''k'' cache_k))"
  by (simp add: cache_k_eq TimeBasedCache_Get_def AgeBasedCache_Get_def Get_def contains_def)

text \<open>
  Claim C6, amended. In a TimeBasedCache or AgeBasedCache whose state satisfies
  \<open>store_inv\<close>, a \<^verbatim>\<open>Get\<close> on a key that is present but expired (for the code:
  \<^verbatim>\<open>timestamp + max_age < now\<close>, the sum taken in the arithmetic of the times) raises
  \<^verbatim>\<open>KeyError("Expired")\<close> and removes nothing: \<^verbatim>\<open>_hash\<close> is unchanged and the key is still
  in the store afterwards.
\<close>

theorem expired_Get_keeps_entry:
  assumes "store_inv s" and "map_of (hash s) key = Some (Some (ts, v))"
    and "ts + max_age s < now"
  shows "fst (TimeBasedCache_Get now key s) = Inl KeyError_Expired \<and>
         hash (snd (TimeBasedCache_Get now key s)) = hash s \<and>
         contains key (snd (TimeBasedCache_Get now key s)) \<and>
         fst (AgeBasedCache_Get now key s) = Inl KeyError_Expired \<and>
         hash (snd (AgeBasedCache_Get now key s)) = hash s \<and>
         contains key (snd (AgeBasedCache_Get now key s))"
  using assms(2,3)
  by (simp add: TimeBasedCache_Get_expired [OF assms] AgeBasedCache_Get_present [OF assms(1,2)]
        contains_def)

theorem expired_Get_keeps_entry_witness:
  "store_inv cache_ab \<and> map_of (hash cache_ab) ''a'' = Some (Some (0, 1)) \<and>
   0 + max_age cache_ab < 10 \<and>
   fst (TimeBasedCache_Get 10 ''a'' cache_ab) = Inl KeyError_Expired \<and>
   hash (snd (TimeBasedCache_Get 10 ''a'' cache_ab)) =
     [(''a'', Some (0, 1)), (''b'', Some (8, 2))] \<and>
   fst (AgeBasedCache_Get 10 ''a'' cache_ab) = Inl KeyError_Expired \<and>
   hash (snd (AgeBasedCache_Get 10 ''a'' cache_ab)) =
     [(''a'', Some (0, 1)), (''b'', Some (8, 2))]"
proof -
  have b: "map_of (hash cache_ab) ''a'' = Some (Some (0, 1))"
    and c: "0 + max_age cache_ab < 10"
    by (simp_all add: cache_ab_eq)
  note inst = expired_Get_keeps_entry [OF store_inv_cache_ab b c]
  have "fst (TimeBasedCache_Get 10 ''a'' cache_ab) = Inl KeyError_Expired"
    and "hash (snd (TimeBasedCache_Get 10 ''a'' cache_ab)) = hash cache_ab"
    and "fst (AgeBasedCache_Get 10 ''a'' cache_ab) = Inl KeyError_Expired"
    and "hash (snd (AgeBasedCache_Get 10 ''a'' cache_ab)) = hash cache_ab"
    using inst by blast+
  then show ?thesis
    using store_inv_cache_ab b c by (simp add: cache_ab_eq)
qed

subsection \<open>C7: Get of the AgeBasedCache\<close>

text \<open>
  Claim C7. In an AgeBasedCache whose state satisfies \<open>store_inv\<close> and holds \<open>key\<close>
  with the timestamp \<open>ts\<close>: a \<^verbatim>\<open>Get(key)\<close> that succeeds returns the object and only moves
  the key to the end of \<^verbatim>\<open>_age\<close>; whatever its outcome, \<^verbatim>\<open>Get\<close> leaves \<^verbatim>\<open>_hash\<close>, and so
  every timestamp, as it was. Hence reads do not extend the lifetime: after any number of
  reads of the key, at any times, a \<^verbatim>\<open>Get\<close> at the time \<open>now\<close> has the outcome it would
  have had without them, and it raises Expired when the code's test
  \<^verbatim>\<open>ts + max_age < now\<close> holds of the timestamp of the \<^verbatim>\<open>Put\<close>. With \<^verbatim>\<open>max_age = 10\<close>: after
  \<^verbatim>\<open>Put(k, v)\<close> at 0, \<^verbatim>\<open>Get(k)\<close> returns \<open>v\<close> at 5 and raises Expired at 11, with integer
  times and with float times.
\<close>

theorem AgeBasedCache_Get_no_refresh:
  assumes "store_inv s" and "map_of (hash s) key = Some (Some (ts, v))"
  shows "(\<not> ts + max_age s < now \<longrightarrow>
            AgeBasedCache_Get now key s = (Inr v, s\<lparr>age := remove1 key (age s) @ [key]\<rparr>)) \<and>
         hash (snd (AgeBasedCache_Get now key s)) = hash s \<and>
         fst (AgeBasedCache_Get now key (AgeBasedCache_reads moments key s)) =
           fst (AgeBasedCache_Get now key s) \<and>
         (ts + max_age s < now \<longrightarrow>
            fst (AgeBasedCache_Get now key (AgeBasedCache_reads moments key s)) =
              Inl KeyError_Expired) \<and>
         (let c0 = TimeBasedCache_init 10 (10::int) False;
              (r0, c1) = TimeBasedCache_Put 0 k w c0;
              (r1, c2) = AgeBasedCache_Get 5 k c1;
              (r2, c3) = AgeBasedCache_Get 11 k c2
          in r1 = Inr w \<and> r2 = Inl KeyError_Expired) \<and>
         (let c0 = TimeBasedCache_init 10 (Double 10 0) False;
              (r0, c1) = TimeBasedCache_Put (Double 0 0) k w c0;
              (r1, c2) = AgeBasedCache_Get (Double 5 0) k c1;
              (r2, c3) = AgeBasedCache_Get (Double 11 0) k c2
          in r1 = Inr w \<and> r2 = Inl KeyError_Expired)"
proof -
  let ?s = "AgeBasedCache_reads moments key s"
  have f: "store_inv ?s" "hash ?s = hash s" "max_age ?s = max_age s"
    using AgeBasedCache_reads_facts [OF assms(1), of moments key] by simp_all
  have m: "map_of (hash ?s) key = Some (Some (ts, v))" using f(2) assms(2) by simp
  have 1: "\<not> ts + max_age s < now \<longrightarrow>
      AgeBasedCache_Get now key s = (Inr v, s\<lparr>age := remove1 key (age s) @ [key]\<rparr>)"
    by (simp add: AgeBasedCache_Get_present [OF assms])
  have 2: "hash (snd (AgeBasedCache_Get now key s)) = hash s"
    by (simp add: AgeBasedCache_Get_present [OF assms])
  have 3: "fst (AgeBasedCache_Get now key ?s) = fst (AgeBasedCache_Get now key s)"
    using f(3) by (simp add: AgeBasedCache_Get_present [OF f(1) m]
        AgeBasedCache_Get_present [OF assms])
  have 4: "ts + max_age s < now \<longrightarrow> fst (AgeBasedCache_Get now key ?s) = Inl KeyError_Expired"
    using f(3) by (simp add: AgeBasedCache_Get_present [OF f(1) m])
  show ?thesis
    using 1 2 3 4 absolute_example [of k w] absolute_example_float [of k w] by blast
qed

theorem AgeBasedCache_Get_no_refresh_witness:
  "store_inv cache_ab \<and> map_of (hash cache_ab) ''a'' = Some (Some (0, 1)) \<and>
   AgeBasedCache_Get 5 ''a'' cache_ab = (Inr 1, cache_ab\<lparr>age := [''b'', ''a'']\<rparr>) \<and>
   hash (snd (AgeBasedCache_Get 5 ''a'' cache_ab)) =
     [(''a'', Some (0, 1)), (''b'', Some (8, 2))] \<and>
   fst (AgeBasedCache_Get 6 ''a'' (AgeBasedCache_reads [2, 4, 5] ''a'' cache_ab)) =
     Inl KeyError_Expired"
proof -
  have b: "map_of (hash cache_ab) ''a'' = Some (Some (0, 1))"
    and c: "\<not> 0 + max_age cache_ab < 5" "0 + max_age cache_ab < 6"
    by (simp_all add: cache_ab_eq)
  note inst = AgeBasedCache_Get_no_refresh [OF store_inv_cache_ab b, where k = "''k''"
      and w = "7::nat"]
  have "AgeBasedCache_Get 5 ''a'' cache_ab =
          (Inr 1, cache_ab\<lparr>age := remove1 ''a'' (age cache_ab) @ [''a'']\<rparr>)"
    using inst [where now = 5, THEN conjunct1] c(1) by simp
  moreover have "hash (snd (AgeBasedCache_Get 5 ''a'' cache_ab)) = hash cache_ab"
    using inst [where now = 5, THEN conjunct2, THEN conjunct1] by simp
  moreover have "fst (AgeBasedCache_Get 6 ''a'' (AgeBasedCache_reads [2, 4, 5] ''a'' cache_ab)) =
     Inl KeyError_Expired"
    using inst [where now = 6 and moments = "[2, 4, 5]",
        THEN conjunct2, THEN conjunct2, THEN conjunct2, THEN conjunct1] c(2)
    by simp
  ultimately show ?thesis
    using store_inv_cache_ab b by (simp add: cache_ab_eq)
qed

subsection \<open>C8: pickling\<close>



subsection \<open>C9: what Put returns\<close>

text \<open>
  Claim C9 holds of \<^verbatim>\<open>FastStore.Put\<close> and fails on \<^verbatim>\<open>TimeBasedCache.Put\<close>. In a store whose
  limit is not negative, \<^verbatim>\<open>FastStore.Put\<close> raises nothing and returns the key, and
  \<^verbatim>\<open>TimeBasedCache.Put\<close>, which calls it and drops its value, raises nothing and returns
  \<^verbatim>\<open>None\<close>.
\<close>

theorem TimeBasedCache_Put_returns_None:
  assumes "0 \<le> limit s" and "0 \<le> limit t"
  shows "fst (Put key obj s) = Inr key \<and>
         fst (TimeBasedCache_Put now key v t) = Inr None"
  using Put_returns_key [OF assms(1), of key obj] Put_returns_key [OF assms(2), of key "Some (now, v)"]
  by (auto simp: TimeBasedCache_Put_def split: prod.splits sum.splits)

theorem TimeBasedCache_Put_returns_None_witness:
  "0 \<le> limit (FastStore_init 10 False :: (string, nat) FastStore) \<and>
   0 \<le> limit (TimeBasedCache_init 10 600 False :: (string, nat, int) TimeBasedCache) \<and>
   fst (Put ''a'' (Some (1::nat)) (FastStore_init 10 False)) = Inr ''a'' \<and>
   fst (TimeBasedCache_Put (0::int) ''a'' (1::nat) (TimeBasedCache_init 10 600 False)) = Inr None"
proof -
  have a: "0 \<le> limit (FastStore_init 10 False :: (string, nat) FastStore)"
    and b: "0 \<le> limit (TimeBasedCache_init 10 600 False :: (string, nat, int) TimeBasedCache)"
    by (simp_all add: FastStore_init_def TimeBasedCache_init_def)
  show ?thesis
    using a b TimeBasedCache_Put_returns_None [OF a b, of "''a''" "Some 1" 0 1] by simp
qed

subsection \<open>C10: a Get that finds the key expired\<close>

text \<open>
  Claim C10. In a TimeBasedCache, a \<^verbatim>\<open>Get(key)\<close> that raises \<^verbatim>\<open>KeyError("Expired")\<close> has
  found the key in \<^verbatim>\<open>_age\<close> and in \<^verbatim>\<open>_hash\<close>, and it changes the store: the key is moved to
  the end of \<^verbatim>\<open>_age\<close> (the most recently touched end), and nothing else changes, so the
  entry stays in \<^verbatim>\<open>_hash\<close>. \<^verbatim>\<open>Expire\<close> pops keys from the front of \<^verbatim>\<open>_age\<close>, so the entry
  is now the last one to go: with \<^verbatim>\<open>max_size = 2\<close> and \<^verbatim>\<open>max_age = 10\<close>, after \<^verbatim>\<open>Put(a)\<close> at
  0 and \<^verbatim>\<open>Put(b)\<close> at 1, when \<^verbatim>\<open>_age\<close> is \<open>[a, b]\<close>, a \<^verbatim>\<open>Get(a)\<close> at 20 fails Expired and
  leaves \<^verbatim>\<open>_age\<close> as \<open>[b, a]\<close>, and \<^verbatim>\<open>Put(c)\<close> at 21 then evicts \<open>b\<close> and keeps the expired
  \<open>a\<close>.
\<close>

theorem expired_Get_moves_key:
  assumes "fst (TimeBasedCache_Get now key s) = Inl KeyError_Expired"
  shows "snd (TimeBasedCache_Get now key s) = s\<lparr>age := remove1 key (age s) @ [key]\<rparr> \<and>
         key \<in> set (age s) \<and> contains key s \<and>
         hash (snd (TimeBasedCache_Get now key s)) = hash s \<and>
         contains key (snd (TimeBasedCache_Get now key s)) \<and>
         last (age (snd (TimeBasedCache_Get now key s))) = key \<and>
         (let c0 = TimeBasedCache_init 2 10 False :: (string, nat, int) TimeBasedCache;
              (r0, c1) = TimeBasedCache_Put 0 ''a'' 1 c0;
              (r1, c2) = TimeBasedCache_Put 1 ''b'' 2 c1;
              (r2, c3) = TimeBasedCache_Get 20 ''a'' c2;
              (r3, c4) = TimeBasedCache_Put 21 ''c'' 3 c3
          in r2 = Inl KeyError_Expired \<and> age c2 = [''a'', ''b''] \<and>
             age c3 = [''b'', ''a''] \<and>
             contains ''a'' c4 \<and> \<not> contains ''b'' c4 \<and> contains ''c'' c4)"
proof -
  have st: "snd (TimeBasedCache_Get now key s) = s\<lparr>age := remove1 key (age s) @ [key]\<rparr>"
    using assms by (rule TimeBasedCache_Get_Expired_state)
  have k: "key \<in> set (age s)" and c: "contains key s"
    using assms by (auto simp: TimeBasedCache_Get_Expired_iff contains_def)
  show ?thesis
    using k c expired_then_Put_example by (simp add: st contains_def)
qed

theorem expired_Get_moves_key_witness:
  "fst (TimeBasedCache_Get 10 ''a'' cache_ab) = Inl KeyError_Expired \<and>
   age cache_ab = [''a'', ''b''] \<and>
   age (snd (TimeBasedCache_Get 10 ''a'' cache_ab)) = [''b'', ''a''] \<and>
   hash (snd (TimeBasedCache_Get 10 ''a'' cache_ab)) =
     [(''a'', Some (0, 1)), (''b'', Some (8, 2))] \<and>
   last (age (snd (TimeBasedCache_Get 10 ''a'' cache_ab))) = ''a''"
proof -
  have a: "fst (TimeBasedCache_Get 10 ''a'' cache_ab) = Inl KeyError_Expired"
    by (simp add: cache_ab_eq TimeBasedCache_Get_def Get_def)
  note inst = expired_Get_moves_key [OF a]
  have "snd (TimeBasedCache_Get 10 ''a'' cache_ab) =
          cache_ab\<lparr>age := remove1 ''a'' (age cache_ab) @ [''a'']\<rparr>"
    using inst [THEN conjunct1] .
  moreover have "last (age (snd (TimeBasedCache_Get 10 ''a'' cache_ab))) = ''a''"
    using inst by blast
  ultimately show ?thesis
    using a by (simp add: cache_ab_eq)
qed

end
